theory Spec2Isabelle
  imports Complex_Main "HOL-Library.Word" "HOL-Library.Signed_Division"
    "HOL-Library.Multiset" "HOL-Library.Product_Lexorder"
begin

section \<open>The demo program of CodeForesight: \<^verbatim>\<open>demo_vuln.c\<close> and its Stage-1-fixed variant\<close>

text \<open>
  The source holds two C translation units: the vulnerable demo (lines 1-192) and the
  variant with the Stage 1 fixes applied (lines 193-355). Both define functions of the
  same names, so every definition below carries the prefix \<open>vuln_\<close> or \<open>fixed_\<close>
  in front of the source's name.
\<close>

subsection \<open>C data: \<^verbatim>\<open>int\<close>, buffers, strings\<close>

text \<open>
  \<^verbatim>\<open>int\<close> is a 32-bit word read in two's complement; arithmetic wraps modulo \<open>2^32\<close>.
  C's \<^verbatim>\<open>/\<close> truncates towards zero (\<open>sdiv\<close> on \<open>int\<close>).
\<close>

type_synonym int32 = "32 word"

definition c_div :: "int32 \<Rightarrow> int32 \<Rightarrow> int32" where
  "c_div a b = word_of_int (sint a sdiv sint b)"

text \<open>
  A \<^verbatim>\<open>char\<close> array is the list of its bytes; its length is the size of the object.
  A \<^verbatim>\<open>char *\<close> argument is the array it points to. Every access is checked against
  the size of the array: an access past the end is an error value, not a result.
\<close>

type_synonym buf = "char list"

abbreviation NUL :: char where
  "NUL \<equiv> CHR 0x00"

abbreviation newline :: char where
  "newline \<equiv> CHR 0x0A"

datatype error = WriteOutOfBounds | ReadOutOfBounds

text \<open>Sequencing: the first error ends the function, as the fault would.\<close>

definition and_then :: "error + 'a \<Rightarrow> ('a \<Rightarrow> error + 'b) \<Rightarrow> error + 'b" where
  "and_then r f = (case r of Inl e \<Rightarrow> Inl e | Inr x \<Rightarrow> f x)"

definition store :: "buf \<Rightarrow> nat \<Rightarrow> char \<Rightarrow> error + buf" where
  "store b i c = (if i < length b then Inr (b[i := c]) else Inl WriteOutOfBounds)"

text \<open>A string literal: its characters and the terminator.\<close>

definition lit :: "string \<Rightarrow> buf" where
  "lit s = s @ [NUL]"

text \<open>
  An uninitialised local array of \<open>n\<close> bytes: its content is whatever the stack held
  there, given by \<open>junk\<close>. A function with several such locals takes one \<open>junk\<close>
  per local, by the position of its declaration.
\<close>

definition alloca :: "nat \<Rightarrow> (nat \<Rightarrow> char) \<Rightarrow> buf" where
  "alloca n junk = map junk [0..<n]"

text \<open>The string a buffer holds: the bytes before the first NUL.\<close>

definition c_str :: "buf \<Rightarrow> string" where
  "c_str b = takeWhile (\<lambda>c. c \<noteq> NUL) b"

subsection \<open>The C library functions the program calls\<close>

text \<open>\<^verbatim>\<open>strlen\<close>: walks to the first NUL; \<open>None\<close> when the array holds none.\<close>

fun c_strlen :: "buf \<Rightarrow> nat option" where
  "c_strlen [] = None"
| "c_strlen (c # cs) = (if c = NUL then Some 0 else map_option Suc (c_strlen cs))"

text \<open>
  \<^verbatim>\<open>strcpy\<close>: \<^verbatim>\<open>while ((dst[i] = *src++) != 0) i++\<close>. The terminator is copied too.
  Nothing bounds the index by the destination.
\<close>

fun strcpy_from :: "buf \<Rightarrow> nat \<Rightarrow> buf \<Rightarrow> error + buf" where
  "strcpy_from dst i [] = Inl ReadOutOfBounds"
| "strcpy_from dst i (c # cs) =
     (case store dst i c of
        Inl e \<Rightarrow> Inl e
      | Inr d \<Rightarrow> if c = NUL then Inr d else strcpy_from d (Suc i) cs)"

definition strcpy :: "buf \<Rightarrow> buf \<Rightarrow> error + buf" where
  "strcpy dst src = strcpy_from dst 0 src"

text \<open>\<^verbatim>\<open>memcpy\<close>: copies exactly \<open>n\<close> bytes.\<close>

fun memcpy_from :: "buf \<Rightarrow> nat \<Rightarrow> buf \<Rightarrow> nat \<Rightarrow> error + buf" where
  "memcpy_from dst i src 0 = Inr dst"
| "memcpy_from dst i [] (Suc n) = Inl ReadOutOfBounds"
| "memcpy_from dst i (c # cs) (Suc n) =
     (case store dst i c of
        Inl e \<Rightarrow> Inl e
      | Inr d \<Rightarrow> memcpy_from d (Suc i) cs n)"

definition memcpy :: "buf \<Rightarrow> buf \<Rightarrow> nat \<Rightarrow> error + buf" where
  "memcpy dst src n = memcpy_from dst 0 src n"

text \<open>
  \<^verbatim>\<open>strncpy\<close>: writes exactly \<open>n\<close> bytes: the characters of \<open>src\<close> up to its
  terminator, then NULs; no terminator when \<open>src\<close> has \<open>n\<close> characters or more.
\<close>

fun pad_from :: "buf \<Rightarrow> nat \<Rightarrow> nat \<Rightarrow> error + buf" where
  "pad_from dst i 0 = Inr dst"
| "pad_from dst i (Suc n) =
     (case store dst i NUL of
        Inl e \<Rightarrow> Inl e
      | Inr d \<Rightarrow> pad_from d (Suc i) n)"

fun strncpy_from :: "buf \<Rightarrow> nat \<Rightarrow> buf \<Rightarrow> nat \<Rightarrow> error + buf" where
  "strncpy_from dst i src 0 = Inr dst"
| "strncpy_from dst i [] (Suc n) = Inl ReadOutOfBounds"
| "strncpy_from dst i (c # cs) (Suc n) =
     (case store dst i c of
        Inl e \<Rightarrow> Inl e
      | Inr d \<Rightarrow> if c = NUL then pad_from d (Suc i) n else strncpy_from d (Suc i) cs n)"

definition strncpy :: "buf \<Rightarrow> buf \<Rightarrow> nat \<Rightarrow> error + buf" where
  "strncpy dst src n = strncpy_from dst 0 src n"

text \<open>Writing a run of bytes from index \<open>i\<close> on, each store checked.\<close>

fun write_from :: "buf \<Rightarrow> nat \<Rightarrow> char list \<Rightarrow> error + buf" where
  "write_from dst i [] = Inr dst"
| "write_from dst i (c # cs) =
     (case store dst i c of
        Inl e \<Rightarrow> Inl e
      | Inr d \<Rightarrow> write_from d (Suc i) cs)"

text \<open>
  \<^verbatim>\<open>sprintf(out, "pre%spost", arg)\<close>: the text before the directive, the string
  \<open>arg\<close> holds, the text after it, and a terminator, written from \<open>out[0]\<close> on with
  no bound.
\<close>

definition sprintf_s :: "buf \<Rightarrow> string \<Rightarrow> buf \<Rightarrow> string \<Rightarrow> error + buf" where
  "sprintf_s out pre arg post =
     (case c_strlen arg of
        None \<Rightarrow> Inl ReadOutOfBounds
      | Some n \<Rightarrow> write_from out 0 (pre @ take n arg @ post @ [NUL]))"

text \<open>
  \<^verbatim>\<open>printf("pre%spost", arg)\<close> and \<^verbatim>\<open>printf("text")\<close>: standard output is the
  list of the bytes written so far.
\<close>

definition printf_s :: "string \<Rightarrow> string \<Rightarrow> buf \<Rightarrow> string \<Rightarrow> error + string" where
  "printf_s out pre arg post =
     (case c_strlen arg of
        None \<Rightarrow> Inl ReadOutOfBounds
      | Some n \<Rightarrow> Inr (out @ pre @ take n arg @ post))"

definition printf0 :: "string \<Rightarrow> string \<Rightarrow> string" where
  "printf0 out text = out @ text"

subsection \<open>The vulnerable variant\<close>

text \<open>\<^verbatim>\<open>safe_copy\<close>, lines 24-30. \<^verbatim>\<open>size_t\<close> is \<open>nat\<close>: the one subtraction is guarded.\<close>

definition vuln_safe_copy :: "buf \<Rightarrow> buf \<Rightarrow> nat \<Rightarrow> error + buf" where
  "vuln_safe_copy dst src dst_size =
     (if dst_size = 0 then Inr dst
      else case strncpy dst src (dst_size - 1) of
             Inl e \<Rightarrow> Inl e
           | Inr d \<Rightarrow> store d (dst_size - 1) NUL)"

text \<open>\<^verbatim>\<open>compute_score\<close>, lines 54-60.\<close>

definition vuln_compute_score :: "int32 \<Rightarrow> int32 \<Rightarrow> int32" where
  "vuln_compute_score a b =
     (let score = (a * 3) + (b * 2) - c_div a 2
      in if score <s 0 then 0 else score)"

text \<open>\<^verbatim>\<open>build_query\<close>, lines 62-65: \<open>out_size\<close> is cast to void.\<close>

definition vuln_build_query :: "buf \<Rightarrow> nat \<Rightarrow> buf \<Rightarrow> error + buf" where
  "vuln_build_query out out_size user_input =
     sprintf_s out (''SELECT * FROM users WHERE name = '' @ [CHR 0x27]) user_input [CHR 0x27]"

text \<open>\<^verbatim>\<open>render_html\<close>, lines 67-71.\<close>

definition vuln_render_html :: "buf \<Rightarrow> nat \<Rightarrow> buf \<Rightarrow> error + buf" where
  "vuln_render_html out out_size user_input =
     sprintf_s out ''<div>'' user_input ''</div>''"

text \<open>\<^verbatim>\<open>copy_untrusted\<close> and \<^verbatim>\<open>copy_untrusted_bytes\<close>, lines 73-79.\<close>

definition copy_untrusted :: "buf \<Rightarrow> buf \<Rightarrow> error + buf" where
  "copy_untrusted dst src = strcpy dst src"

definition copy_untrusted_bytes :: "buf \<Rightarrow> buf \<Rightarrow> error + buf" where
  "copy_untrusted_bytes dst src =
     (case c_strlen src of
        None \<Rightarrow> Inl ReadOutOfBounds
      | Some n \<Rightarrow> memcpy dst src n)"

text \<open>
  \<^verbatim>\<open>handle_request\<close>, lines 95-107. The result keeps the locals \<open>query\<close> and \<open>html\<close>
  as they are when the function returns, and standard output.
\<close>

record request_result =
  rr_query :: buf
  rr_html :: buf
  rr_stdout :: string

definition vuln_handle_request ::
  "(nat \<Rightarrow> nat \<Rightarrow> char) \<Rightarrow> string \<Rightarrow> buf \<Rightarrow> error + request_result" where
  "vuln_handle_request junk out user_input =
     (let small_buf = alloca 8 (junk 0);
          query = alloca 512 (junk 1);
          html = alloca 512 (junk 2)
      in and_then (copy_untrusted small_buf user_input) (\<lambda>small_buf1.
         and_then (copy_untrusted_bytes small_buf1 user_input) (\<lambda>small_buf2.
         and_then (vuln_build_query query 512 user_input) (\<lambda>query1.
         and_then (vuln_render_html html 512 user_input) (\<lambda>html1.
         and_then (printf_s out ''Query: '' query1 [newline]) (\<lambda>out1.
         and_then (printf_s out1 ''HTML: '' html1 [newline]) (\<lambda>out2.
         Inr \<lparr>rr_query = query1, rr_html = html1, rr_stdout = out2\<rparr>)))))))"

text \<open>\<^verbatim>\<open>apply_coupon_after_checkout\<close>, lines 141-150.\<close>

definition vuln_apply_coupon_after_checkout :: "int32 \<Rightarrow> int32 \<Rightarrow> int32" where
  "vuln_apply_coupon_after_checkout paid coupon_applied =
     (let total = 100;
          total = (if paid \<noteq> 0 then 0 else total);
          total = (if coupon_applied \<noteq> 0 then total - 100 else total)
      in total)"

text \<open>\<^verbatim>\<open>view_admin_report\<close>, lines 153-157: \<open>is_admin\<close> is cast to void.\<close>

definition vuln_view_admin_report :: "string \<Rightarrow> int32 \<Rightarrow> string" where
  "vuln_view_admin_report out is_admin =
     printf0 out (''Admin report: all user emails...'' @ [newline])"

subsection \<open>The Stage-1-fixed variant\<close>

text \<open>\<^verbatim>\<open>safe_copy\<close>, lines 217-223.\<close>

definition fixed_safe_copy :: "buf \<Rightarrow> buf \<Rightarrow> nat \<Rightarrow> error + buf" where
  "fixed_safe_copy dst src dst_size =
     (if dst_size = 0 then Inr dst
      else case strncpy dst src (dst_size - 1) of
             Inl e \<Rightarrow> Inl e
           | Inr d \<Rightarrow> store d (dst_size - 1) NUL)"

text \<open>\<^verbatim>\<open>compute_score\<close>, lines 235-241.\<close>

definition fixed_compute_score :: "int32 \<Rightarrow> int32 \<Rightarrow> int32" where
  "fixed_compute_score a b =
     (let score = (a * 3) + (b * 2) - c_div a 2
      in if score <s 0 then 0 else score)"

text \<open>\<^verbatim>\<open>build_query\<close> and \<^verbatim>\<open>render_html\<close>, lines 243-251: no user input.\<close>

definition fixed_build_query :: "buf \<Rightarrow> nat \<Rightarrow> error + buf" where
  "fixed_build_query out out_size =
     fixed_safe_copy out (lit ''SELECT * FROM users WHERE active = 1'') out_size"

definition fixed_render_html :: "buf \<Rightarrow> nat \<Rightarrow> error + buf" where
  "fixed_render_html out out_size =
     fixed_safe_copy out (lit ''<div>Welcome</div>'') out_size"

text \<open>\<^verbatim>\<open>handle_request\<close>, lines 267-277: \<open>user_input\<close> is cast to void.\<close>

definition fixed_handle_request ::
  "(nat \<Rightarrow> nat \<Rightarrow> char) \<Rightarrow> string \<Rightarrow> buf \<Rightarrow> error + request_result" where
  "fixed_handle_request junk out user_input =
     (let query = alloca 256 (junk 0);
          html = alloca 256 (junk 1)
      in and_then (fixed_build_query query 256) (\<lambda>query1.
         and_then (fixed_render_html html 256) (\<lambda>html1.
         and_then (printf_s out ''Query: '' query1 [newline]) (\<lambda>out1.
         and_then (printf_s out1 ''HTML: '' html1 [newline]) (\<lambda>out2.
         Inr \<lparr>rr_query = query1, rr_html = html1, rr_stdout = out2\<rparr>)))))"

text \<open>\<^verbatim>\<open>apply_coupon_after_checkout\<close>, lines 306-315.\<close>

definition fixed_apply_coupon_after_checkout :: "int32 \<Rightarrow> int32 \<Rightarrow> int32" where
  "fixed_apply_coupon_after_checkout paid coupon_applied =
     (let total = 100;
          total = (if paid \<noteq> 0 then 0 else total);
          total = (if coupon_applied \<noteq> 0 then total - 100 else total)
      in total)"

text \<open>\<^verbatim>\<open>view_admin_report\<close>, lines 318-321.\<close>

definition fixed_view_admin_report :: "string \<Rightarrow> int32 \<Rightarrow> string" where
  "fixed_view_admin_report out is_admin =
     printf0 out (''Admin report: all user emails...'' @ [newline])"

section \<open>The detection pipeline\<close>

text \<open>
  The three-stage pipeline (normalizer, detectors, reasoning client, orchestrator) is
  code of the repository that is not among its sources. The definitions of this
  section follow the specification, sections 3 to 7.
\<close>

subsection \<open>Data model\<close>

text \<open>Modelled from the spec: the verdict of a StageReport, section 3; the type is missing.\<close>

datatype verdict = Pass | Block | Indeterminate | Skipped

text \<open>
  Modelled from the spec: the categories the glossary names; the type is missing. The
  rank fixes the order of categories that sorting "by location then category" uses.
\<close>

datatype category = BufferOverflow | Injection | BusinessLogic

text \<open>Modelled from the spec: the rank of a category in the sort order; missing.\<close>

fun category_rank :: "category \<Rightarrow> nat" where
  "category_rank BufferOverflow = 0"
| "category_rank Injection = 1"
| "category_rank BusinessLogic = 2"

text \<open>Modelled from the spec: the list of all categories a classifier scores; missing.\<close>

definition all_categories :: "category list" where
  "all_categories = [BufferOverflow, Injection, BusinessLogic]"

text \<open>Modelled from the spec: the severity of a Finding, section 3; the type is missing.\<close>

datatype severity = Low | Medium | High

text \<open>
  Modelled from the spec: Snippet, section 3: line range, extracted text, enclosing
  function name if resolvable. The type is missing.
\<close>

record snippet =
  sn_line_start :: nat
  sn_line_end :: nat
  sn_text :: string
  sn_function :: "string option"

text \<open>
  Modelled from the spec: SourceUnit, section 3: path, language tag, raw text, ordered
  list of Snippets, degraded flag. The type is missing.
\<close>

record source_unit =
  su_path :: string
  su_language :: string
  su_text :: string
  su_snippets :: "snippet list"
  su_degraded :: bool

text \<open>
  Modelled from the spec: Finding, sections 3 and 6: id, stage, category, file, line
  range, confidence, severity, optional rationale. The type is missing.
\<close>

record finding =
  f_id :: nat
  f_stage :: nat
  f_category :: category
  f_file :: string
  f_line_start :: nat
  f_line_end :: nat
  f_confidence :: rat
  f_severity :: severity
  f_rationale :: "string option"

text \<open>
  Modelled from the spec: StageReport, section 3: ordered list of Findings and a
  verdict. The type is missing.
\<close>

record stage_report =
  sr_findings :: "finding list"
  sr_verdict :: verdict

text \<open>
  Modelled from the spec: the key of the order "sorted by location then category",
  section 3; within one SourceUnit the file is the same, so the location is the line
  range. The function is missing.
\<close>

definition finding_key :: "finding \<Rightarrow> nat \<times> nat \<times> nat" where
  "finding_key f = (f_line_start f, f_line_end f, category_rank (f_category f))"

text \<open>
  Modelled from the spec: the Finding ids, unique within a run, section 3: the
  position in the ordered list. The function is missing.
\<close>

definition number_findings :: "finding list \<Rightarrow> finding list" where
  "number_findings fs = map (\<lambda>(i, f). f\<lparr>f_id := i\<rparr>) (enumerate 0 fs)"

text \<open>
  Modelled from the spec: the invariant "confidence always in [0,1]", section 3. The
  check is missing.
\<close>

definition confidence_ok :: "finding \<Rightarrow> bool" where
  "confidence_ok f = (0 \<le> f_confidence f \<and> f_confidence f \<le> 1)"

text \<open>
  Modelled from the spec: the invariant over the Findings of a report, checked before a
  report is emitted, section 7. The check is missing.
\<close>

definition invariant_ok :: "stage_report \<Rightarrow> bool" where
  "invariant_ok r = list_all confidence_ok (sr_findings r)"

subsection \<open>Stage 1: rule matcher and classifier\<close>

text \<open>
  Modelled from the spec: DetectionRule, section 3: id, target category, matcher
  definition, owning stage; the fixed baseline confidence of section 4.2. The type is
  missing.
\<close>

record detection_rule =
  dr_id :: nat
  dr_category :: category
  dr_matches :: "string \<Rightarrow> bool"
  dr_stage :: nat
  dr_confidence :: rat

text \<open>
  Modelled from the spec: ClassifierModel, sections 3 and 4.2: a versioned artifact
  that gives a probability per category for the features of a Snippet. The type is
  missing.
\<close>

record classifier_model =
  cm_version :: nat
  cm_score :: "string \<Rightarrow> category \<Rightarrow> rat"

text \<open>
  Modelled from the spec: the configuration of Stage 1, section 4.2: the acceptance
  threshold \<open>\<tau>1_keep\<close>, the blocking threshold \<open>\<tau>1_block\<close>, and the severity of
  each category (the designated high-severity known categories). The type is missing.
\<close>

record stage1_config =
  tau1_keep :: rat
  tau1_block :: rat
  cfg_severity :: "category \<Rightarrow> severity"

text \<open>
  Modelled from the spec: the rule matcher, section 4.2: on each match, a Finding with
  the fixed baseline confidence of the rule. The function is missing.
\<close>

definition rule_matcher ::
  "string \<Rightarrow> detection_rule list \<Rightarrow> stage1_config \<Rightarrow> snippet \<Rightarrow> finding list" where
  "rule_matcher path rules cfg s =
     map (\<lambda>r. \<lparr>f_id = 0, f_stage = 1, f_category = dr_category r, f_file = path,
               f_line_start = sn_line_start s, f_line_end = sn_line_end s,
               f_confidence = dr_confidence r,
               f_severity = cfg_severity cfg (dr_category r),
               f_rationale = None\<rparr>)
         (filter (\<lambda>r. dr_matches r (sn_text s)) rules)"

text \<open>
  Modelled from the spec: the classifier, section 4.2: a probability per category;
  Findings at or above \<open>\<tau>1_keep\<close> are retained. The function is missing.
\<close>

definition classifier ::
  "string \<Rightarrow> classifier_model \<Rightarrow> stage1_config \<Rightarrow> snippet \<Rightarrow> finding list" where
  "classifier path model cfg s =
     map (\<lambda>c. \<lparr>f_id = 0, f_stage = 1, f_category = c, f_file = path,
               f_line_start = sn_line_start s, f_line_end = sn_line_end s,
               f_confidence = cm_score model (sn_text s) c,
               f_severity = cfg_severity cfg c,
               f_rationale = None\<rparr>)
         (filter (\<lambda>c. tau1_keep cfg \<le> cm_score model (sn_text s) c) all_categories)"

text \<open>
  Modelled from the spec: both strategies on one Snippet, section 4.2: the Findings of
  the rule matcher, then those of the classifier. The function is missing.
\<close>

definition analyze ::
  "string \<Rightarrow> detection_rule list \<Rightarrow> classifier_model \<Rightarrow> stage1_config \<Rightarrow> snippet
     \<Rightarrow> finding list" where
  "analyze path rules model cfg s =
     rule_matcher path rules cfg s @ classifier path model cfg s"

text \<open>
  Modelled from the spec: one step of the merge policy, section 4.2: a Finding \<open>f\<close>
  joins the merged Findings; when one of them agrees with \<open>f\<close> on the same
  (location, category), the one of higher confidence is kept rather than both. The
  function is missing.
\<close>

fun merge_into :: "finding \<Rightarrow> finding list \<Rightarrow> finding list" where
  "merge_into f [] = [f]"
| "merge_into f (g # gs) =
     (if finding_key g = finding_key f
      then (if f_confidence g < f_confidence f then f else g) # gs
      else g # merge_into f gs)"

text \<open>
  Modelled from the spec: the merge policy, section 4.2: when a rule Finding and a
  classifier Finding agree on the same (location, category), the one of higher
  confidence is kept rather than duplicated. The policy is applied to every two
  Findings of Stage 1 that agree on (location, category), so the merged list holds one
  Finding for each (location, category). The function is missing.
\<close>

fun merge_findings :: "finding list \<Rightarrow> finding list" where
  "merge_findings [] = []"
| "merge_findings (f # fs) = merge_into f (merge_findings fs)"

text \<open>
  Modelled from the spec: the gate policy of Stage 1, section 4.2: block if a retained
  Finding of a high-severity category has confidence at least \<open>\<tau>1_block\<close>, else
  pass. The function is missing.
\<close>

definition stage1_verdict :: "stage1_config \<Rightarrow> finding list \<Rightarrow> verdict" where
  "stage1_verdict cfg fs =
     (if list_ex (\<lambda>f. cfg_severity cfg (f_category f) = High
                     \<and> tau1_block cfg \<le> f_confidence f) fs
      then Block else Pass)"

text \<open>
  Modelled from the spec: the Stage 1 detector, sections 4.2 and 5. The Snippets are
  evaluated independently by a worker pool; \<open>completed\<close> is the list of the Snippets
  in the order in which their evaluations complete, and the Findings are gathered in
  that order. They are merged, sorted by location then category, and numbered. The
  function is missing.
\<close>

definition stage1 ::
  "string \<Rightarrow> detection_rule list \<Rightarrow> classifier_model \<Rightarrow> stage1_config \<Rightarrow> snippet list
     \<Rightarrow> stage_report" where
  "stage1 path rules model cfg completed =
     (let fs = number_findings
                 (sort_key finding_key
                    (merge_findings (concat (map (analyze path rules model cfg) completed))))
      in \<lparr>sr_findings = fs, sr_verdict = stage1_verdict cfg fs\<rparr>)"

subsection \<open>Stage 2: the reasoning client\<close>

text \<open>
  Modelled from the spec: the errors of the Reasoning Client, sections 6 and 7. The
  type is missing.
\<close>

datatype service_error = Timeout | AuthFailure | RateLimit

text \<open>
  Modelled from the spec: the request of the Reasoning Client interface, section 6:
  snippet, context, prompt template. The type is missing.
\<close>

record reasoning_request =
  rq_snippet :: string
  rq_context :: string
  rq_prompt :: string

text \<open>
  Modelled from the spec: a structured result of the reasoning backend, section 4.3,
  which becomes a Finding of category business-logic with a rationale. The type is
  missing.
\<close>

record structured_result =
  res_line_start :: nat
  res_line_end :: nat
  res_confidence :: rat
  res_severity :: severity
  res_rationale :: string

text \<open>
  Modelled from the spec: the response of the Reasoning Client interface, section 6:
  findings or an error. The type is missing.
\<close>

datatype response = Response "structured_result list" | ServiceError service_error

text \<open>
  Modelled from the spec: the Reasoning Client as an injectable interface with a
  deterministic fake, sections 6 and 9: the answer to a request at its \<open>a\<close>-th attempt.
  The type is missing.
\<close>

type_synonym reasoning_client = "reasoning_request \<Rightarrow> nat \<Rightarrow> response"

text \<open>
  Modelled from the spec: the bounded retries of section 4.3: attempt \<open>a\<close>, and on an
  error the next attempt while retries are left; the error of the last attempt when
  none is left. The backoff delay is time and is not modelled. The function is missing.
\<close>

fun attempt_from ::
  "reasoning_client \<Rightarrow> reasoning_request \<Rightarrow> nat \<Rightarrow> nat
     \<Rightarrow> service_error + structured_result list" where
  "attempt_from client req a 0 =
     (case client req a of
        Response rs \<Rightarrow> Inr rs
      | ServiceError e \<Rightarrow> Inl e)"
| "attempt_from client req a (Suc retries_left) =
     (case client req a of
        Response rs \<Rightarrow> Inr rs
      | ServiceError e \<Rightarrow> attempt_from client req (Suc a) retries_left)"

text \<open>
  Modelled from the spec: a request with at most \<open>max_retries\<close> retries after the
  first attempt, section 4.3. The function is missing.
\<close>

definition request_with_retries ::
  "reasoning_client \<Rightarrow> nat \<Rightarrow> reasoning_request \<Rightarrow> service_error + structured_result list"
  where
  "request_with_retries client max_retries req = attempt_from client req 0 max_retries"

text \<open>
  Modelled from the spec: the request Stage 2 issues for a Snippet, section 4.3: the
  snippet, the surrounding context, the task-specific prompt. The function is missing.
\<close>

definition request_for :: "string \<Rightarrow> source_unit \<Rightarrow> snippet \<Rightarrow> reasoning_request" where
  "request_for prompt unit s =
     \<lparr>rq_snippet = sn_text s, rq_context = su_text unit, rq_prompt = prompt\<rparr>"

text \<open>
  Modelled from the spec: each structured result becomes a Finding with category
  business-logic and a rationale string, section 4.3. The function is missing.
\<close>

definition result_finding :: "string \<Rightarrow> structured_result \<Rightarrow> finding" where
  "result_finding path r =
     \<lparr>f_id = 0, f_stage = 2, f_category = BusinessLogic, f_file = path,
      f_line_start = res_line_start r, f_line_end = res_line_end r,
      f_confidence = res_confidence r, f_severity = res_severity r,
      f_rationale = Some (res_rationale r)\<rparr>"

text \<open>
  Modelled from the spec: the Stage 2 detector, section 4.3: one request per Snippet,
  with retries; each structured result becomes a Finding. When a request has failed
  after its retries the verdict is indeterminate; otherwise Stage 2 blocks when flaws
  were found (the README: "Stage 2 blocks the build if unknown vulnerabilities are
  found") and passes when none was. The function is missing.
\<close>

definition stage2 :: "reasoning_client \<Rightarrow> nat \<Rightarrow> string \<Rightarrow> source_unit \<Rightarrow> stage_report" where
  "stage2 client max_retries prompt unit =
     (let outcomes = map (\<lambda>s. request_with_retries client max_retries (request_for prompt unit s))
                         (su_snippets unit);
          results = concat (map (\<lambda>outcome. case outcome of Inl e \<Rightarrow> [] | Inr rs \<Rightarrow> rs) outcomes);
          fs = number_findings
                 (sort_key finding_key (map (result_finding (su_path unit)) results))
      in \<lparr>sr_findings = fs,
          sr_verdict = (if list_ex isl outcomes then Indeterminate
                        else if fs = [] then Pass else Block)\<rparr>)"

subsection \<open>Stage 3 and the gate orchestrator\<close>

text \<open>
  Modelled from the spec: the trend classification of the forecast, section 4.4. The
  type is missing.
\<close>

datatype trend = Increasing | Stable | Decreasing

text \<open>
  Modelled from the spec: the report of Stage 3, sections 4.4 and 6: a forecast score
  and a trend, and the stage's verdict. The type is missing.
\<close>

record stage3_report =
  s3_score :: rat
  s3_trend :: trend
  s3_verdict :: verdict

text \<open>
  Modelled from the spec: GateDecision, sections 3 and 6: the reports of the three
  stages and one overall verdict. The type is missing.
\<close>

record gate_decision =
  gd_stage1 :: stage_report
  gd_stage2 :: stage_report
  gd_stage3 :: stage3_report
  gd_overall :: verdict

text \<open>Modelled from the spec: the fatal errors of the taxonomy, section 7. Missing.\<close>

datatype fatal_error = ModelLoadError | ConfigError | InternalInvariantViolation

text \<open>Modelled from the spec: the stage-selecting modes of section 6. Missing.\<close>

datatype mode = Full | Stage1Only | Stage2Only | Stage3Only

text \<open>Modelled from the spec: the states of the orchestrator, section 4.5. Missing.\<close>

datatype gate_state = READY | STAGE1_RUNNING | STAGE2_RUNNING | STAGE3_RUNNING | DONE

text \<open>
  Modelled from the spec: the report of Stage 1 or Stage 2 when it is not run: verdict
  skipped, section 4.5. Missing.
\<close>

definition skipped_report :: stage_report where
  "skipped_report = \<lparr>sr_findings = [], sr_verdict = Skipped\<rparr>"

text \<open>
  Modelled from the spec: the report of Stage 3 when it is not run: verdict skipped,
  section 4.5. Missing.
\<close>

definition skipped_forecast :: stage3_report where
  "skipped_forecast = \<lparr>s3_score = 0, s3_trend = Stable, s3_verdict = Skipped\<rparr>"

text \<open>
  Modelled from the spec: the state of a run of the orchestrator: the state of the
  machine and the reports so far. The type is missing.
\<close>

record gate_run =
  gr_state :: gate_state
  gr_stage1 :: stage_report
  gr_stage2 :: stage_report
  gr_stage3 :: stage3_report

text \<open>
  Modelled from the spec: one transition of the state machine of section 4.5:
  READY to STAGE1_RUNNING; from there block to DONE, pass to STAGE2_RUNNING; from
  there block to DONE, pass or indeterminate to STAGE3_RUNNING; then DONE. A
  stage-only mode runs its one stage. \<open>s1\<close>, \<open>s2\<close> and \<open>s3\<close> are the reports the
  stages produce when they are run. The function is missing.
\<close>

fun gate_step ::
  "mode \<Rightarrow> stage_report \<Rightarrow> stage_report \<Rightarrow> stage3_report \<Rightarrow> gate_run \<Rightarrow> gate_run" where
  "gate_step m s1 s2 s3 g =
     (case gr_state g of
        READY \<Rightarrow>
          (case m of
             Full \<Rightarrow> g\<lparr>gr_state := STAGE1_RUNNING\<rparr>
           | Stage1Only \<Rightarrow> g\<lparr>gr_state := STAGE1_RUNNING\<rparr>
           | Stage2Only \<Rightarrow> g\<lparr>gr_state := STAGE2_RUNNING\<rparr>
           | Stage3Only \<Rightarrow> g\<lparr>gr_state := STAGE3_RUNNING\<rparr>)
      | STAGE1_RUNNING \<Rightarrow>
          g\<lparr>gr_stage1 := s1,
            gr_state := (if m = Stage1Only \<or> sr_verdict s1 = Block then DONE
                         else STAGE2_RUNNING)\<rparr>
      | STAGE2_RUNNING \<Rightarrow>
          g\<lparr>gr_stage2 := s2,
            gr_state := (if m = Stage2Only \<or> sr_verdict s2 = Block then DONE
                         else STAGE3_RUNNING)\<rparr>
      | STAGE3_RUNNING \<Rightarrow> g\<lparr>gr_stage3 := s3, gr_state := DONE\<rparr>
      | DONE \<Rightarrow> g)"

text \<open>
  Modelled from the spec: the run of the machine from READY until DONE; every path
  of section 4.5 has at most four transitions. The function is missing.
\<close>

fun gate_run_steps ::
  "nat \<Rightarrow> mode \<Rightarrow> stage_report \<Rightarrow> stage_report \<Rightarrow> stage3_report \<Rightarrow> gate_run \<Rightarrow> gate_run" where
  "gate_run_steps 0 m s1 s2 s3 g = g"
| "gate_run_steps (Suc n) m s1 s2 s3 g =
     (if gr_state g = DONE then g else gate_run_steps n m s1 s2 s3 (gate_step m s1 s2 s3 g))"

text \<open>
  Modelled from the spec: the aggregation of the stage verdicts into one verdict,
  section 4.5: block when a stage blocked, else indeterminate when a stage is
  indeterminate, else pass. The function is missing.
\<close>

definition overall_verdict :: "verdict list \<Rightarrow> verdict" where
  "overall_verdict vs =
     (if Block \<in> set vs then Block
      else if Indeterminate \<in> set vs then Indeterminate
      else Pass)"

text \<open>
  Modelled from the spec: the Gate Orchestrator, sections 4.5 and 7: the stages not run
  are marked skipped; a confidence outside [0,1] is the fatal
  InternalInvariantViolation, and no report is produced; otherwise the GateDecision is
  produced. The function is missing.
\<close>

definition orchestrate ::
  "mode \<Rightarrow> stage_report \<Rightarrow> stage_report \<Rightarrow> stage3_report \<Rightarrow> fatal_error + gate_decision" where
  "orchestrate m s1 s2 s3 =
     (let g = gate_run_steps 4 m s1 s2 s3
                \<lparr>gr_state = READY, gr_stage1 = skipped_report, gr_stage2 = skipped_report,
                 gr_stage3 = skipped_forecast\<rparr>
      in if invariant_ok (gr_stage1 g) \<and> invariant_ok (gr_stage2 g)
         then Inr \<lparr>gd_stage1 = gr_stage1 g, gd_stage2 = gr_stage2 g, gd_stage3 = gr_stage3 g,
                   gd_overall = overall_verdict
                     [sr_verdict (gr_stage1 g), sr_verdict (gr_stage2 g),
                      s3_verdict (gr_stage3 g)]\<rparr>
         else Inl InternalInvariantViolation)"

text \<open>
  Modelled from the spec: a report that is not corrupted, section 7: the invariant
  holds of the Findings of its stage reports. The check is missing.
\<close>

definition well_formed :: "gate_decision \<Rightarrow> bool" where
  "well_formed gd = (invariant_ok (gd_stage1 gd) \<and> invariant_ok (gd_stage2 gd))"

subsection \<open>A run on the demo program\<close>

text \<open>
  Example inputs for the pipeline: two Snippets of \<^verbatim>\<open>demo_vuln.c\<close>
  (\<open>copy_untrusted\<close>, lines 73-75, and \<open>apply_coupon_after_checkout\<close>, lines
  141-150), one rule for unbounded copies, a constant classifier, and a reasoning client
  that is unreachable.
\<close>

definition demo_copy_snippet :: snippet where
  "demo_copy_snippet =
     \<lparr>sn_line_start = 73, sn_line_end = 75, sn_text = ''strcpy(dst, src);'',
      sn_function = Some ''copy_untrusted''\<rparr>"

definition demo_coupon_snippet :: snippet where
  "demo_coupon_snippet =
     \<lparr>sn_line_start = 141, sn_line_end = 150, sn_text = ''total = total - 100;'',
      sn_function = Some ''apply_coupon_after_checkout''\<rparr>"

definition demo_unit :: source_unit where
  "demo_unit =
     \<lparr>su_path = ''demo_vuln.c'', su_language = ''c'', su_text = ''strcpy(dst, src); total = total - 100;'',
      su_snippets = [demo_copy_snippet, demo_coupon_snippet], su_degraded = False\<rparr>"

definition demo_rules :: "detection_rule list" where
  "demo_rules =
     [\<lparr>dr_id = 1, dr_category = BufferOverflow, dr_matches = (\<lambda>t. take 6 t = ''strcpy''),
       dr_stage = 1, dr_confidence = 9 / 10\<rparr>]"

definition demo_model :: classifier_model where
  "demo_model = \<lparr>cm_version = 1, cm_score = (\<lambda>t c. if c = Injection then 1 / 2 else 1 / 10)\<rparr>"

definition demo_config :: stage1_config where
  "demo_config =
     \<lparr>tau1_keep = 2 / 5, tau1_block = 4 / 5,
      cfg_severity = (\<lambda>c. if c = BufferOverflow then High else Medium)\<rparr>"

definition failing_client :: reasoning_client where
  "failing_client = (\<lambda>req a. ServiceError Timeout)"

definition demo_stage1_report :: stage_report where
  "demo_stage1_report = \<lparr>sr_findings = [], sr_verdict = Pass\<rparr>"

definition demo_forecast :: stage3_report where
  "demo_forecast = \<lparr>s3_score = 1 / 4, s3_trend = Stable, s3_verdict = Pass\<rparr>"





subsection \<open>Auxiliary notions\<close>


section \<open>Properties of the buffer operations\<close>

lemma store_ok [simp]: "i < length b \<Longrightarrow> store b i c = Inr (b[i := c])"
  by (simp add: store_def)

lemma store_oob [simp]: "length b \<le> i \<Longrightarrow> store b i c = Inl WriteOutOfBounds"
  by (simp add: store_def)

lemma c_strlen_Some_iff:
  "c_strlen s = Some n \<longleftrightarrow> n < length s \<and> s ! n = NUL \<and> NUL \<notin> set (take n s)"
proof (induction s arbitrary: n)
  case Nil
  then show ?case by simp
next
  case (Cons c cs)
  show ?case
  proof (cases "c = NUL")
    case True
    then show ?thesis by (cases n) auto
  next
    case False
    then show ?thesis using Cons.IH by (cases n) auto
  qed
qed

lemma c_strlen_None_iff: "c_strlen s = None \<longleftrightarrow> NUL \<notin> set s"
  by (induction s) auto

lemma c_strlen_lit: "NUL \<notin> set s \<Longrightarrow> c_strlen (s @ NUL # r) = Some (length s)"
  by (induction s) auto

lemma c_str_take: "c_strlen s = Some n \<Longrightarrow> c_str s = take n s"
  by (induction s arbitrary: n) (auto simp: c_str_def split: if_splits)

lemma take_Suc_upd: "i < length d \<Longrightarrow> take (Suc i) (d[i := c]) = take i d @ [c]"
  by (simp add: take_Suc_conv_app_nth)

lemma write_from_ok:
  "i + length cs \<le> length dst \<Longrightarrow>
   write_from dst i cs = Inr (take i dst @ cs @ drop (i + length cs) dst)"
proof (induction cs arbitrary: dst i)
  case Nil
  then show ?case by simp
next
  case (Cons c cs)
  then have i: "i < length dst" by simp
  have "write_from dst i (c # cs) = write_from (dst[i := c]) (Suc i) cs"
    using i by simp
  also have "\<dots> = Inr (take (Suc i) (dst[i := c]) @ cs @ drop (Suc i + length cs) (dst[i := c]))"
    using Cons.prems by (intro Cons.IH) simp
  also have "\<dots> = Inr (take i dst @ (c # cs) @ drop (i + length (c # cs)) dst)"
    using i by (simp add: take_Suc_upd)
  finally show ?case .
qed

lemma write_from_oob:
  "length dst < i + length cs \<Longrightarrow> i \<le> length dst \<Longrightarrow>
   write_from dst i cs = Inl WriteOutOfBounds"
proof (induction cs arbitrary: dst i)
  case Nil
  then show ?case by simp
next
  case (Cons c cs)
  show ?case
  proof (cases "i < length dst")
    case True
    then show ?thesis using Cons.prems by (simp add: Cons.IH)
  next
    case False
    then show ?thesis by simp
  qed
qed

lemma strcpy_from_oob:
  "c_strlen src = Some n \<Longrightarrow> length dst \<le> i + n \<Longrightarrow>
   strcpy_from dst i src = Inl WriteOutOfBounds"
proof (induction src arbitrary: dst i n)
  case Nil
  then show ?case by simp
next
  case (Cons c cs)
  show ?case
  proof (cases "i < length dst")
    case False
    then show ?thesis by simp
  next
    case True
    with Cons.prems have "c \<noteq> NUL" by (auto split: if_splits)
    with Cons.prems obtain m where m: "c_strlen cs = Some m" "n = Suc m"
      by (auto split: if_splits)
    have "strcpy_from (dst[i := c]) (Suc i) cs = Inl WriteOutOfBounds"
      using Cons.prems m by (intro Cons.IH [of m]) simp_all
    then show ?thesis using True \<open>c \<noteq> NUL\<close> by simp
  qed
qed

lemma strcpy_from_ok:
  "c_strlen src = Some n \<Longrightarrow> i + n < length dst \<Longrightarrow>
   strcpy_from dst i src = Inr (take i dst @ take (Suc n) src @ drop (Suc (i + n)) dst)"
proof (induction src arbitrary: dst i n)
  case Nil
  then show ?case by simp
next
  case (Cons c cs)
  then have i: "i < length dst" by simp
  show ?case
  proof (cases "c = NUL")
    case True
    with Cons.prems have "n = 0" by simp
    then show ?thesis using i True by (simp add: upd_conv_take_nth_drop)
  next
    case False
    with Cons.prems obtain m where m: "c_strlen cs = Some m" "n = Suc m"
      by (auto split: if_splits)
    have "strcpy_from (dst[i := c]) (Suc i) cs =
          Inr (take (Suc i) (dst[i := c]) @ take (Suc m) cs @ drop (Suc (Suc i + m)) (dst[i := c]))"
      using Cons.prems m by (intro Cons.IH) simp_all
    then show ?thesis using i False m by (simp add: take_Suc_upd)
  qed
qed

lemma memcpy_from_ok:
  "n \<le> length src \<Longrightarrow> i + n \<le> length dst \<Longrightarrow>
   memcpy_from dst i src n = Inr (take i dst @ take n src @ drop (i + n) dst)"
proof (induction dst i src n rule: memcpy_from.induct)
  case (1 dst i src)
  then show ?case by simp
next
  case (2 dst i n)
  then show ?case by simp
next
  case (3 dst i c cs n)
  then have i: "i < length dst" by simp
  have "memcpy_from (dst[i := c]) (Suc i) cs n =
        Inr (take (Suc i) (dst[i := c]) @ take n cs @ drop (Suc i + n) (dst[i := c]))"
    using "3.prems" i by (intro "3.IH" [of "dst[i := c]"]) simp_all
  then show ?case using i by (simp add: take_Suc_upd)
qed

lemma memcpy_from_oob:
  "n \<le> length src \<Longrightarrow> length dst < i + n \<Longrightarrow> i \<le> length dst \<Longrightarrow>
   memcpy_from dst i src n = Inl WriteOutOfBounds"
proof (induction dst i src n rule: memcpy_from.induct)
  case (1 dst i src)
  then show ?case by simp
next
  case (2 dst i n)
  then show ?case by simp
next
  case (3 dst i c cs n)
  show ?case
  proof (cases "i < length dst")
    case True
    have "memcpy_from (dst[i := c]) (Suc i) cs n = Inl WriteOutOfBounds"
      using "3.prems" True by (intro "3.IH" [of "dst[i := c]"]) simp_all
    then show ?thesis using True by simp
  next
    case False
    then show ?thesis by simp
  qed
qed

lemma pad_from_ok:
  "i + n \<le> length dst \<Longrightarrow>
   pad_from dst i n = Inr (take i dst @ replicate n NUL @ drop (i + n) dst)"
proof (induction n arbitrary: dst i)
  case 0
  then show ?case by simp
next
  case (Suc n)
  then have i: "i < length dst" by simp
  have "pad_from (dst[i := NUL]) (Suc i) n =
        Inr (take (Suc i) (dst[i := NUL]) @ replicate n NUL @ drop (Suc i + n) (dst[i := NUL]))"
    using Suc.prems by (intro Suc.IH) simp
  then show ?case using i by (simp add: take_Suc_upd)
qed

lemma pad_from_oob:
  "length dst < i + n \<Longrightarrow> i \<le> length dst \<Longrightarrow>
   pad_from dst i n = Inl WriteOutOfBounds"
proof (induction n arbitrary: dst i)
  case 0
  then show ?case by simp
next
  case (Suc n)
  show ?case
  proof (cases "i < length dst")
    case True
    then show ?thesis using Suc.prems by (simp add: Suc.IH)
  next
    case False
    then show ?thesis by simp
  qed
qed

lemma strncpy_from_ok:
  "c_strlen src = Some m \<Longrightarrow> i + n \<le> length dst \<Longrightarrow>
   strncpy_from dst i src n =
     Inr (take i dst @ take (min m n) src @ replicate (n - m) NUL @ drop (i + n) dst)"
proof (induction dst i src n arbitrary: m rule: strncpy_from.induct)
  case (1 dst i src)
  then show ?case by simp
next
  case (2 dst i n)
  then show ?case by simp
next
  case (3 dst i c cs n)
  then have i: "i < length dst" by simp
  show ?case
  proof (cases "c = NUL")
    case True
    with "3.prems" have "m = 0" by simp
    moreover have "pad_from (dst[i := NUL]) (Suc i) n =
        Inr (take (Suc i) (dst[i := NUL]) @ replicate n NUL @ drop (Suc i + n) (dst[i := NUL]))"
      using "3.prems" by (intro pad_from_ok) simp
    ultimately show ?thesis using i True by (simp add: take_Suc_upd replicate_Suc [symmetric] del: replicate_Suc)
  next
    case False
    with "3.prems" obtain k where k: "c_strlen cs = Some k" "m = Suc k"
      by (auto split: if_splits)
    have "strncpy_from (dst[i := c]) (Suc i) cs n =
          Inr (take (Suc i) (dst[i := c]) @ take (min k n) cs @ replicate (n - k) NUL
               @ drop (Suc i + n) (dst[i := c]))"
      using "3.prems" k i False by (intro "3.IH" [of "dst[i := c]"]) simp_all
    then show ?thesis using i False k by (simp add: take_Suc_upd)
  qed
qed

lemma and_then_Inl [simp]: "and_then (Inl e) f = Inl e"
  by (simp add: and_then_def)

lemma and_then_Inr [simp]: "and_then (Inr x) f = f x"
  by (simp add: and_then_def)

lemma length_alloca [simp]: "length (alloca n junk) = n"
  by (simp add: alloca_def)

lemma c_strlen_of_lit: "NUL \<notin> set s \<Longrightarrow> c_strlen (lit s) = Some (length s)"
  by (simp add: lit_def c_strlen_lit)

lemma fixed_safe_copy_eq: "fixed_safe_copy = vuln_safe_copy"
  by (intro ext) (simp add: fixed_safe_copy_def vuln_safe_copy_def)

lemma store_after:
  assumes "length body = k" and "k < length dst"
  shows "store (body @ drop k dst) k c = Inr (body @ c # drop (Suc k) dst)"
proof -
  have "drop k dst = dst ! k # drop (Suc k) dst"
    using assms(2) by (simp add: Cons_nth_drop_Suc)
  then have "(body @ drop k dst)[k := c] = body @ c # drop (Suc k) dst"
    using assms(1) by (simp add: list_update_append)
  moreover have "k < length (body @ drop k dst)"
    using assms by simp
  ultimately show ?thesis by (simp only: store_ok)
qed

lemma safe_copy_ok:
  assumes "c_strlen src = Some m" and "0 < dst_size" and "dst_size \<le> length dst"
  shows "vuln_safe_copy dst src dst_size =
           Inr (take (min m (dst_size - 1)) src @ replicate (dst_size - 1 - m) NUL
                @ NUL # drop dst_size dst)"
proof -
  define n where "n = dst_size - 1"
  define body where "body = take (min m n) src @ replicate (n - m) NUL"
  have n: "dst_size = Suc n" using assms(2) by (simp add: n_def)
  have m: "m < length src" using assms(1) by (simp add: c_strlen_Some_iff)
  have len: "length body = n" using m by (auto simp: body_def min_def)
  have "strncpy dst src n = Inr (body @ drop n dst)"
    unfolding strncpy_def body_def using assms n by (subst strncpy_from_ok [of src m]) simp_all
  moreover have "store (body @ drop n dst) n NUL = Inr (body @ NUL # drop (Suc n) dst)"
    using len assms(3) n by (intro store_after) simp_all
  ultimately have "vuln_safe_copy dst src dst_size = Inr (body @ NUL # drop dst_size dst)"
    using n by (simp add: vuln_safe_copy_def)
  then show ?thesis by (simp add: body_def n_def)
qed

lemma c_str_prefix:
  "NUL \<notin> set xs \<Longrightarrow> c_str (xs @ NUL # ys) = xs"
  by (induction xs) (auto simp: c_str_def)

lemma safe_copy_post:
  assumes "c_strlen src = Some m" and "0 < dst_size" and "dst_size \<le> length dst"
  shows "\<exists>d k. vuln_safe_copy dst src dst_size = Inr d
           \<and> length d = length dst
           \<and> d ! (dst_size - 1) = NUL
           \<and> c_strlen d = Some k \<and> k \<le> dst_size - 1
           \<and> c_str d = take (dst_size - 1) (c_str src)
           \<and> (m < dst_size \<longrightarrow> c_str d = c_str src)"
proof -
  define n where "n = dst_size - 1"
  define d where "d = take (min m n) src @ replicate (n - m) NUL @ NUL # drop dst_size dst"
  have n: "dst_size = Suc n" using assms(2) by (simp add: n_def)
  have m: "m < length src" "NUL \<notin> set (take m src)"
    using assms(1) by (simp_all add: c_strlen_Some_iff)
  have run: "vuln_safe_copy dst src dst_size = Inr d"
    unfolding d_def n_def by (rule safe_copy_ok [OF assms])
  have nonul: "NUL \<notin> set (take (min m n) src)"
  proof -
    have "take (min m n) src = take (min m n) (take m src)" by (simp add: min.commute)
    then show ?thesis using m(2) by (metis in_set_takeD)
  qed
  have lenp: "length (take (min m n) src) = min m n" using m(1) by simp
  have len: "length d = length dst"
    using m(1) assms(3) n by (auto simp: d_def min_def)
  have nth: "d ! n = NUL"
  proof -
    have "d = (take (min m n) src @ replicate (n - m) NUL) @ NUL # drop dst_size dst"
      by (simp add: d_def)
    moreover have "length (take (min m n) src @ replicate (n - m) NUL) = n"
      using m(1) by (auto simp: min_def)
    ultimately show ?thesis by (metis nth_append_length)
  qed
  have d_split: "d = take (min m n) src @ NUL # (replicate (n - Suc m) NUL @ NUL # drop dst_size dst)"
    if "m < n"
    using that by (simp add: d_def min_def replicate_Suc [symmetric] Suc_diff_Suc del: replicate_Suc)
  have d_split': "d = take (min m n) src @ NUL # drop dst_size dst" if "n \<le> m"
    using that by (simp add: d_def)
  have str: "c_str d = take (min m n) src" and strlen: "c_strlen d = Some (min m n)"
  proof -
    show "c_str d = take (min m n) src"
    proof (cases "m < n")
      case True
      show ?thesis by (subst d_split [OF True]) (rule c_str_prefix [OF nonul])
    next
      case False
      then have "n \<le> m" by simp
      show ?thesis by (subst d_split' [OF \<open>n \<le> m\<close>]) (rule c_str_prefix [OF nonul])
    qed
    show "c_strlen d = Some (min m n)"
    proof (cases "m < n")
      case True
      show ?thesis
        by (subst d_split [OF True]) (simp only: c_strlen_lit [OF nonul] lenp)
    next
      case False
      then have "n \<le> m" by simp
      show ?thesis
        by (subst d_split' [OF \<open>n \<le> m\<close>]) (simp only: c_strlen_lit [OF nonul] lenp)
    qed
  qed
  have src: "c_str src = take m src" by (rule c_str_take [OF assms(1)])
  have cut: "c_str d = take n (c_str src)" by (simp add: str src min.commute)
  have whole: "m < dst_size \<longrightarrow> c_str d = c_str src"
    using n by (auto simp: str src min_def)
  show ?thesis
  proof (intro exI conjI)
    show "vuln_safe_copy dst src dst_size = Inr d" by (rule run)
    show "length d = length dst" by (rule len)
    show "d ! (dst_size - 1) = NUL" using nth by (simp only: n_def)
    show "c_strlen d = Some (min m n)" by (rule strlen)
    show "min m n \<le> dst_size - 1" by (simp add: n_def)
    show "c_str d = take (dst_size - 1) (c_str src)" using cut by (simp only: n_def)
    show "m < dst_size \<longrightarrow> c_str d = c_str src" by (rule whole)
  qed
qed

lemma copy_untrusted_oob:
  "c_strlen src = Some n \<Longrightarrow> length dst \<le> n \<Longrightarrow> copy_untrusted dst src = Inl WriteOutOfBounds"
  by (simp add: copy_untrusted_def strcpy_def strcpy_from_oob)

lemma copy_untrusted_ok:
  "c_strlen src = Some n \<Longrightarrow> n < length dst \<Longrightarrow>
   copy_untrusted dst src = Inr (take (Suc n) src @ drop (Suc n) dst)"
  by (simp add: copy_untrusted_def strcpy_def strcpy_from_ok)

lemma c_strlen_less: "c_strlen src = Some n \<Longrightarrow> n < length src"
  by (simp add: c_strlen_Some_iff)

lemma copy_untrusted_bytes_oob:
  "c_strlen src = Some n \<Longrightarrow> length dst < n \<Longrightarrow>
   copy_untrusted_bytes dst src = Inl WriteOutOfBounds"
  using c_strlen_less [of src n]
  by (simp add: copy_untrusted_bytes_def memcpy_def memcpy_from_oob)

lemma copy_untrusted_bytes_ok:
  "c_strlen src = Some n \<Longrightarrow> n \<le> length dst \<Longrightarrow>
   copy_untrusted_bytes dst src = Inr (take n src @ drop n dst)"
  using c_strlen_less [of src n]
  by (simp add: copy_untrusted_bytes_def memcpy_def memcpy_from_ok)

lemma sprintf_s_ok:
  assumes "c_strlen arg = Some n" and "length pre + n + length post < length out"
  shows "sprintf_s out pre arg post =
           Inr (pre @ take n arg @ post @ NUL # drop (Suc (length pre + n + length post)) out)"
proof -
  have n: "n < length arg" using assms(1) by (rule c_strlen_less)
  have "write_from out 0 (pre @ take n arg @ post @ [NUL]) =
        Inr (take 0 out @ (pre @ take n arg @ post @ [NUL])
             @ drop (0 + length (pre @ take n arg @ post @ [NUL])) out)"
    using assms(2) n by (intro write_from_ok) simp
  then show ?thesis using assms(1) n by (simp add: sprintf_s_def ac_simps)
qed

lemma sprintf_s_oob:
  assumes "c_strlen arg = Some n" and "length out \<le> length pre + n + length post"
  shows "sprintf_s out pre arg post = Inl WriteOutOfBounds"
proof -
  have n: "n < length arg" using assms(1) by (rule c_strlen_less)
  have "write_from out 0 (pre @ take n arg @ post @ [NUL]) = Inl WriteOutOfBounds"
    using assms(2) n by (intro write_from_oob) simp_all
  then show ?thesis using assms(1) by (simp add: sprintf_s_def)
qed

lemma c_str_no_NUL: "NUL \<notin> set (c_str b)"
  unfolding c_str_def by (induction b) auto

lemma safe_copy_lit:
  assumes "NUL \<notin> set s" and "length s < dst_size" and "dst_size \<le> length dst"
  shows "vuln_safe_copy dst (lit s) dst_size =
           Inr (s @ replicate (dst_size - length s) NUL @ drop dst_size dst)"
proof -
  have len: "c_strlen (lit s) = Some (length s)" by (rule c_strlen_of_lit [OF assms(1)])
  have "0 < dst_size" using assms(2) by simp
  from safe_copy_ok [OF len this assms(3)]
  have "vuln_safe_copy dst (lit s) dst_size =
          Inr (take (min (length s) (dst_size - 1)) (lit s)
               @ replicate (dst_size - 1 - length s) NUL @ NUL # drop dst_size dst)" .
  moreover have "take (min (length s) (dst_size - 1)) (lit s) = s"
  proof -
    have "min (length s) (dst_size - 1) = length s" using assms(2) by simp
    then show ?thesis by (simp add: lit_def)
  qed
  moreover have "replicate (dst_size - 1 - length s) NUL @ NUL # drop dst_size dst
                 = replicate (dst_size - length s) NUL @ drop dst_size dst"
  proof -
    have "dst_size - length s = Suc (dst_size - 1 - length s)" using assms(2) by simp
    then show ?thesis by (simp add: replicate_append_same)
  qed
  ultimately show ?thesis by simp
qed

lemma c_strlen_padded:
  "NUL \<notin> set s \<Longrightarrow> 0 < k \<Longrightarrow> c_strlen (s @ replicate k NUL) = Some (length s)"
  by (cases k) (simp_all add: c_strlen_lit)

lemma c_str_padded:
  "NUL \<notin> set s \<Longrightarrow> c_str (s @ replicate k NUL) = s"
  by (induction s) (auto simp: c_str_def)

lemma printf_s_padded:
  "NUL \<notin> set s \<Longrightarrow> 0 < k \<Longrightarrow>
   printf_s out pre (s @ replicate k NUL) post = Inr (out @ pre @ s @ post)"
  by (simp add: printf_s_def c_strlen_padded)

lemma fixed_build_query_256:
  "fixed_build_query (alloca 256 junk) 256 =
     Inr (''SELECT * FROM users WHERE active = 1'' @ replicate 220 NUL)"
  unfolding fixed_build_query_def fixed_safe_copy_eq
  by (subst safe_copy_lit) simp_all

lemma fixed_render_html_256:
  "fixed_render_html (alloca 256 junk) 256 =
     Inr (''<div>Welcome</div>'' @ replicate 238 NUL)"
  unfolding fixed_render_html_def fixed_safe_copy_eq
  by (subst safe_copy_lit) simp_all

text \<open>
  The run of the vulnerable \<open>handle_request\<close> on a string shorter than 8: no copy
  leaves its buffer, and the input reaches the query and the HTML unchanged.
\<close>

lemma printf_s_terminated:
  "NUL \<notin> set s \<Longrightarrow> printf_s out pre (s @ NUL # rest) post = Inr (out @ pre @ s @ post)"
  by (simp add: printf_s_def c_strlen_lit)

lemma vuln_render_html_ok:
  assumes "c_strlen user_input = Some n" and "n + 12 \<le> length out"
  shows "vuln_render_html out out_size user_input =
           Inr (''<div>'' @ take n user_input @ ''</div>'' @ NUL # drop (n + 12) out)"
proof -
  have idx: "Suc (length ''<div>'' + n + length ''</div>'') = n + 12" by simp
  have "sprintf_s out ''<div>'' user_input ''</div>'' =
          Inr (''<div>'' @ take n user_input @ ''</div>''
               @ NUL # drop (Suc (length ''<div>'' + n + length ''</div>'')) out)"
    using assms by (intro sprintf_s_ok) simp_all
  then show ?thesis unfolding vuln_render_html_def idx by simp
qed

lemma vuln_build_query_ok:
  assumes "c_strlen user_input = Some n" and "n + 36 \<le> length out"
  shows "vuln_build_query out out_size user_input =
           Inr ((''SELECT * FROM users WHERE name = '' @ [CHR 0x27] @ take n user_input
                 @ [CHR 0x27]) @ NUL # drop (n + 36) out)"
proof -
  let ?pre = "''SELECT * FROM users WHERE name = '' @ [CHR 0x27]"
  have idx: "Suc (length ?pre + n + length [CHR 0x27]) = n + 36" by simp
  have "sprintf_s out ?pre user_input [CHR 0x27] =
          Inr (?pre @ take n user_input @ [CHR 0x27]
               @ NUL # drop (Suc (length ?pre + n + length [CHR 0x27])) out)"
    using assms by (intro sprintf_s_ok) simp_all
  then show ?thesis unfolding vuln_build_query_def idx by simp
qed

lemma vuln_handle_request_short:
  assumes "c_strlen user_input = Some n" and "n < 8"
  shows "\<exists>r. vuln_handle_request junk out user_input = Inr r
           \<and> c_str (rr_query r) = ''SELECT * FROM users WHERE name = '' @ [CHR 0x27]
                                   @ c_str user_input @ [CHR 0x27]
           \<and> c_str (rr_html r) = ''<div>'' @ c_str user_input @ ''</div>''
           \<and> rr_stdout r = out @ ''Query: '' @ c_str (rr_query r) @ [newline]
                              @ ''HTML: '' @ c_str (rr_html r) @ [newline]"
proof -
  define u where "u = take n user_input"
  define Q where "Q = ''SELECT * FROM users WHERE name = '' @ [CHR 0x27] @ u @ [CHR 0x27]"
  define H where "H = ''<div>'' @ u @ ''</div>''"
  have str: "c_str user_input = u" unfolding u_def by (rule c_str_take [OF assms(1)])
  have u: "NUL \<notin> set u" using c_str_no_NUL [of user_input] by (simp add: str)
  have q: "NUL \<notin> set Q" using u by (simp add: Q_def)
  have h: "NUL \<notin> set H" using u by (simp add: H_def)
  have c1: "copy_untrusted (alloca 8 (junk 0)) user_input
              = Inr (take (Suc n) user_input @ drop (Suc n) (alloca 8 (junk 0)))"
    using assms by (intro copy_untrusted_ok) simp_all
  have c2: "copy_untrusted_bytes (take (Suc n) user_input @ drop (Suc n) (alloca 8 (junk 0)))
              user_input
            = Inr (take n user_input
                   @ drop n (take (Suc n) user_input @ drop (Suc n) (alloca 8 (junk 0))))"
    using assms c_strlen_less [OF assms(1)] by (intro copy_untrusted_bytes_ok) simp_all
  have bq: "vuln_build_query (alloca 512 (junk 1)) 512 user_input
              = Inr (Q @ NUL # drop (n + 36) (alloca 512 (junk 1)))"
    unfolding Q_def u_def using assms by (intro vuln_build_query_ok) simp_all
  have rh: "vuln_render_html (alloca 512 (junk 2)) 512 user_input
              = Inr (H @ NUL # drop (n + 12) (alloca 512 (junk 2)))"
    unfolding H_def u_def append_assoc using assms by (intro vuln_render_html_ok) simp_all
  have p1: "printf_s o1 ''Query: '' (Q @ NUL # rest) [newline]
              = Inr (o1 @ ''Query: '' @ Q @ [newline])" for o1 rest
    by (rule printf_s_terminated [OF q])
  have p2: "printf_s o1 ''HTML: '' (H @ NUL # rest) [newline]
              = Inr (o1 @ ''HTML: '' @ H @ [newline])" for o1 rest
    by (rule printf_s_terminated [OF h])
  have run: "vuln_handle_request junk out user_input =
          Inr \<lparr>rr_query = Q @ NUL # drop (n + 36) (alloca 512 (junk 1)),
               rr_html = H @ NUL # drop (n + 12) (alloca 512 (junk 2)),
               rr_stdout = (out @ ''Query: '' @ Q @ [newline]) @ ''HTML: '' @ H @ [newline]\<rparr>"
    by (simp only: vuln_handle_request_def Let_def c1 c2 bq rh and_then_Inr p1 p2)
  have "c_str (Q @ NUL # drop (n + 36) (alloca 512 (junk 1))) = Q" by (rule c_str_prefix [OF q])
  moreover have "c_str (H @ NUL # drop (n + 12) (alloca 512 (junk 2))) = H"
    by (rule c_str_prefix [OF h])
  ultimately show ?thesis unfolding run str by (simp add: Q_def H_def)
qed

section \<open>Properties of the demo program\<close>

text \<open>
  C1. In the vulnerable variant \<open>handle_request\<close> copies \<open>user_input\<close> into the
  8-byte local \<open>small_buf\<close> with no bound taken from the destination. For every
  \<open>user_input\<close> holding a string of length at least 8, the first copy
  (\<open>copy_untrusted\<close>, a bare \<open>strcpy\<close>) stores past the end of \<open>small_buf\<close>:
  the copy, and with it \<open>handle_request\<close>, ends in the out-of-bounds write error.
  The \<open>memcpy\<close> of \<open>copy_untrusted_bytes\<close> stores no terminator, so on its own it
  runs past the end of \<open>small_buf\<close> for every length above 8.
\<close>

theorem vuln_handle_request_overflow:
  assumes "c_strlen user_input = Some n" and "8 \<le> n"
  shows "copy_untrusted (alloca 8 (junk 0)) user_input = Inl WriteOutOfBounds
       \<and> vuln_handle_request junk out user_input = Inl WriteOutOfBounds
       \<and> (8 < n \<longrightarrow>
            copy_untrusted_bytes (alloca 8 (junk 0)) user_input = Inl WriteOutOfBounds)"
proof -
  have "copy_untrusted (alloca 8 (junk 0)) user_input = Inl WriteOutOfBounds"
    using assms by (intro copy_untrusted_oob [of user_input n]) simp_all
  moreover have "copy_untrusted_bytes (alloca 8 (junk 0)) user_input = Inl WriteOutOfBounds"
    if "8 < n"
    using assms(1) that by (intro copy_untrusted_bytes_oob [of user_input n]) simp_all
  ultimately show ?thesis by (simp add: vuln_handle_request_def Let_def)
qed

theorem vuln_handle_request_overflow_witness:
  "c_strlen (lit ''AAAAAAAAA'') = Some 9 \<and> (8::nat) \<le> 9 \<and> (8::nat) < 9
   \<and> copy_untrusted (alloca 8 (\<lambda>_. CHR ''x'')) (lit ''AAAAAAAAA'') = Inl WriteOutOfBounds
   \<and> copy_untrusted_bytes (alloca 8 (\<lambda>_. CHR ''x'')) (lit ''AAAAAAAAA'')
        = Inl WriteOutOfBounds
   \<and> vuln_handle_request (\<lambda>_ _. CHR ''x'') [] (lit ''AAAAAAAAA'') = Inl WriteOutOfBounds"
proof -
  have h: "c_strlen (lit ''AAAAAAAAA'') = Some 9" by (simp add: lit_def)
  have h8: "(8::nat) \<le> 9" by simp
  from vuln_handle_request_overflow [OF h h8, of "\<lambda>_ _. CHR ''x''" "[]"]
  show ?thesis using h by simp
qed

lemma vuln_build_query_overflow:
  assumes "c_strlen user_input = Some n" and "length out < n + 36"
  shows "vuln_build_query out out_size user_input = Inl WriteOutOfBounds"
  unfolding vuln_build_query_def using assms by (intro sprintf_s_oob [of user_input n]) simp_all

text \<open>
  C3. In the vulnerable variant \<open>build_query\<close> interpolates \<open>user_input\<close> verbatim:
  for every \<open>user_input\<close> holding a string of length \<open>n\<close>, and every \<open>out\<close> with
  room for the \<open>n + 36\<close> bytes \<open>sprintf\<close> stores, the string left in \<open>out\<close> is
  the text \<open>SELECT * FROM users WHERE name = '\<close>, then the string of \<open>user_input\<close>
  unchanged, then \<open>'\<close>. The parameter \<open>out_size\<close> plays no part.
\<close>

theorem vuln_build_query_interpolates:
  assumes "c_strlen user_input = Some n" and "n + 36 \<le> length out"
  shows "\<exists>out'. vuln_build_query out out_size user_input = Inr out'
           \<and> length out' = length out
           \<and> c_str out' = ''SELECT * FROM users WHERE name = '' @ [CHR 0x27]
                            @ c_str user_input @ [CHR 0x27]
           \<and> c_str user_input = take n user_input"
proof -
  let ?pre = "''SELECT * FROM users WHERE name = '' @ [CHR 0x27]"
  let ?text = "?pre @ take n user_input @ [CHR 0x27]"
  let ?out' = "?text @ NUL # drop (n + 36) out"
  have str: "c_str user_input = take n user_input" by (rule c_str_take [OF assms(1)])
  have n: "n < length user_input" using assms(1) by (rule c_strlen_less)
  have idx: "Suc (length ?pre + n + length [CHR 0x27]) = n + 36" by simp
  have "sprintf_s out ?pre user_input [CHR 0x27] =
          Inr (?pre @ take n user_input @ [CHR 0x27]
               @ NUL # drop (Suc (length ?pre + n + length [CHR 0x27])) out)"
    using assms by (intro sprintf_s_ok) simp_all
  then have run: "vuln_build_query out out_size user_input = Inr ?out'"
    unfolding vuln_build_query_def idx by simp
  have "NUL \<notin> set (take n user_input)" using c_str_no_NUL [of user_input] by (simp add: str)
  then have "NUL \<notin> set ?text" by simp
  then have "c_str ?out' = ?text" by (rule c_str_prefix)
  moreover have "length ?out' = length out" using assms(2) n by simp
  ultimately show ?thesis using run str by simp
qed

theorem vuln_build_query_interpolates_witness:
  "c_strlen (lit ''x' OR '1'='1'') = Some 12
   \<and> (12::nat) + 36 \<le> length (replicate 64 (CHR ''#''))
   \<and> (\<exists>out'. vuln_build_query (replicate 64 (CHR ''#'')) 64 (lit ''x' OR '1'='1'') = Inr out'
          \<and> length out' = 64
          \<and> c_str out' = ''SELECT * FROM users WHERE name = 'x' OR '1'='1'' @ [CHR 0x27])"
proof -
  have h1: "c_strlen (lit ''x' OR '1'='1'') = Some 12" by (simp add: lit_def)
  have h2: "(12::nat) + 36 \<le> length (replicate 64 (CHR ''#''))" by simp
  have s: "c_str (lit ''x' OR '1'='1'') = ''x' OR '1'='1''" by (simp add: lit_def c_str_def)
  from vuln_build_query_interpolates [OF h1 h2, of 64]
  show ?thesis using h1 s by auto
qed

text \<open>
  C4. In the Stage-1-fixed variant the query and the HTML that \<open>handle_request\<close>
  produces do not depend on \<open>user_input\<close>: two runs on any two inputs, whatever the
  stack held before each, give the same result, the query buffer always holds \<open>SELECT * FROM users WHERE active = 1\<close> and
  the html buffer always holds \<open><div>Welcome</div>\<close>.
\<close>

theorem fixed_handle_request_noninterference:
  "fixed_handle_request junk1 out u1 = fixed_handle_request junk2 out u2
   \<and> (\<exists>r. fixed_handle_request junk1 out u1 = Inr r
         \<and> rr_query r = ''SELECT * FROM users WHERE active = 1'' @ replicate 220 NUL
         \<and> rr_html r = ''<div>Welcome</div>'' @ replicate 238 NUL
         \<and> c_str (rr_query r) = ''SELECT * FROM users WHERE active = 1''
         \<and> c_str (rr_html r) = ''<div>Welcome</div>''
         \<and> rr_stdout r = out @ ''Query: SELECT * FROM users WHERE active = 1'' @ [newline]
                              @ ''HTML: <div>Welcome</div>'' @ [newline])"
proof -
  define Q where "Q = ''SELECT * FROM users WHERE active = 1''"
  define H where "H = ''<div>Welcome</div>''"
  have q: "NUL \<notin> set Q" by (simp add: Q_def)
  have h: "NUL \<notin> set H" by (simp add: H_def)
  have bq: "fixed_build_query (alloca 256 junk) 256 = Inr (Q @ replicate 220 NUL)" for junk
    unfolding Q_def by (rule fixed_build_query_256)
  have rh: "fixed_render_html (alloca 256 junk) 256 = Inr (H @ replicate 238 NUL)" for junk
    unfolding H_def by (rule fixed_render_html_256)
  have p1: "printf_s o1 ''Query: '' (Q @ replicate 220 NUL) [newline]
              = Inr (o1 @ ''Query: '' @ Q @ [newline])" for o1
    by (rule printf_s_padded [OF q]) simp
  have p2: "printf_s o1 ''HTML: '' (H @ replicate 238 NUL) [newline]
              = Inr (o1 @ ''HTML: '' @ H @ [newline])" for o1
    by (rule printf_s_padded [OF h]) simp
  have run: "fixed_handle_request junk out u =
          Inr \<lparr>rr_query = Q @ replicate 220 NUL,
               rr_html = H @ replicate 238 NUL,
               rr_stdout = (out @ ''Query: '' @ Q @ [newline]) @ ''HTML: '' @ H @ [newline]\<rparr>"
    for u junk
    by (simp only: fixed_handle_request_def Let_def bq rh and_then_Inr p1 p2)
  have "fixed_handle_request junk1 out u1 = fixed_handle_request junk2 out u2"
    by (simp only: run)
  moreover have "c_str (Q @ replicate 220 NUL) = Q" by (rule c_str_padded [OF q])
  moreover have "c_str (H @ replicate 238 NUL) = H" by (rule c_str_padded [OF h])
  ultimately show ?thesis
    unfolding run by (simp add: Q_def H_def)
qed

text \<open>
  C8. Postcondition of \<open>safe_copy\<close>, in both variants: for every \<open>src\<close> holding a
  string of length \<open>m\<close> and every \<open>dst\<close> of at least \<open>dst_size\<close> bytes, when
  \<open>dst_size > 0\<close> the call returns with \<open>dst[dst_size - 1] = NUL\<close>, so \<open>dst\<close> holds
  a terminated string of length at most \<open>dst_size - 1\<close>, and that string is the
  string of \<open>src\<close> when \<open>m < dst_size\<close>; when \<open>dst_size = 0\<close> the call returns
  at once and \<open>dst\<close> is unchanged.
\<close>

theorem safe_copy_postcondition:
  assumes "c_strlen src = Some m" and "dst_size \<le> length dst"
  shows "(0 < dst_size \<longrightarrow>
           (\<exists>d k. vuln_safe_copy dst src dst_size = Inr d
                \<and> fixed_safe_copy dst src dst_size = Inr d
                \<and> length d = length dst
                \<and> d ! (dst_size - 1) = NUL
                \<and> c_strlen d = Some k \<and> k \<le> dst_size - 1
                \<and> (m < dst_size \<longrightarrow> c_str d = c_str src)))
       \<and> vuln_safe_copy dst src 0 = Inr dst
       \<and> fixed_safe_copy dst src 0 = Inr dst"
proof (intro conjI impI)
  assume "0 < dst_size"
  from safe_copy_post [OF assms(1) this assms(2)]
  show "\<exists>d k. vuln_safe_copy dst src dst_size = Inr d
                \<and> fixed_safe_copy dst src dst_size = Inr d
                \<and> length d = length dst
                \<and> d ! (dst_size - 1) = NUL
                \<and> c_strlen d = Some k \<and> k \<le> dst_size - 1
                \<and> (m < dst_size \<longrightarrow> c_str d = c_str src)"
    unfolding fixed_safe_copy_eq by blast
next
  show "vuln_safe_copy dst src 0 = Inr dst" by (simp add: vuln_safe_copy_def)
  show "fixed_safe_copy dst src 0 = Inr dst" by (simp add: fixed_safe_copy_def)
qed

theorem safe_copy_postcondition_witness:
  "c_strlen (lit ''abc'') = Some 3 \<and> (8::nat) \<le> length ''xxxxxxxx'' \<and> (0::nat) < 8 \<and> (3::nat) < 8
   \<and> (\<exists>d k. vuln_safe_copy ''xxxxxxxx'' (lit ''abc'') 8 = Inr d
          \<and> fixed_safe_copy ''xxxxxxxx'' (lit ''abc'') 8 = Inr d
          \<and> d ! 7 = NUL \<and> c_strlen d = Some k \<and> k \<le> 7 \<and> c_str d = ''abc'')"
proof -
  have h1: "c_strlen (lit ''abc'') = Some 3" by (simp add: lit_def)
  have h2: "(8::nat) \<le> length ''xxxxxxxx''" by simp
  have s: "c_str (lit ''abc'') = ''abc''" by (simp add: lit_def c_str_def)
  from safe_copy_postcondition [OF h1 h2]
  have "\<exists>d k. vuln_safe_copy ''xxxxxxxx'' (lit ''abc'') 8 = Inr d
          \<and> fixed_safe_copy ''xxxxxxxx'' (lit ''abc'') 8 = Inr d
          \<and> length d = length ''xxxxxxxx''
          \<and> d ! (8 - 1) = NUL \<and> c_strlen d = Some k \<and> k \<le> 8 - 1
          \<and> ((3::nat) < 8 \<longrightarrow> c_str d = c_str (lit ''abc''))"
    by simp
  then show ?thesis using h1 s by auto
qed

text \<open>
  C2. \<open>apply_coupon_after_checkout\<close> called with \<open>paid = 1\<close> and
  \<open>coupon_applied = 1\<close> returns \<open>-100\<close>, a negative total, in the vulnerable and in
  the Stage-1-fixed variant: the total is set to 0 because the order is paid, then 100
  is subtracted because a coupon is applied.
\<close>

theorem apply_coupon_after_checkout_negative:
  "vuln_apply_coupon_after_checkout 1 1 = - 100
   \<and> sint (vuln_apply_coupon_after_checkout 1 1) = - 100
   \<and> sint (vuln_apply_coupon_after_checkout 1 1) < 0
   \<and> fixed_apply_coupon_after_checkout 1 1 = - 100
   \<and> sint (fixed_apply_coupon_after_checkout 1 1) = - 100
   \<and> sint (fixed_apply_coupon_after_checkout 1 1) < 0"
  by (simp add: vuln_apply_coupon_after_checkout_def fixed_apply_coupon_after_checkout_def)

text \<open>
  C5. \<open>view_admin_report\<close> prints the admin report for every value of \<open>is_admin\<close>,
  0 included: what it writes is the same for any two values of \<open>is_admin\<close>, in both
  variants. No check stands before the sensitive action.
\<close>

theorem view_admin_report_no_authorization:
  "vuln_view_admin_report out is_admin = vuln_view_admin_report out is_admin'
   \<and> vuln_view_admin_report out is_admin = out @ ''Admin report: all user emails...'' @ [newline]
   \<and> vuln_view_admin_report out 0 = out @ ''Admin report: all user emails...'' @ [newline]
   \<and> fixed_view_admin_report out is_admin = fixed_view_admin_report out is_admin'
   \<and> fixed_view_admin_report out is_admin = out @ ''Admin report: all user emails...'' @ [newline]
   \<and> fixed_view_admin_report out 0 = out @ ''Admin report: all user emails...'' @ [newline]"
  by (simp add: vuln_view_admin_report_def fixed_view_admin_report_def printf0_def)

text \<open>
  C9. \<open>compute_score\<close> never returns a negative value: with \<open>int\<close> arithmetic
  wrapping modulo \<open>2^32\<close>, the result read in two's complement is at least 0 for
  all \<open>a\<close> and \<open>b\<close>, in both variants, because a negative score is replaced by 0.
\<close>

theorem compute_score_nonnegative:
  "0 \<le> sint (vuln_compute_score a b) \<and> 0 \<le> sint (fixed_compute_score a b)"
  by (simp add: vuln_compute_score_def fixed_compute_score_def Let_def word_sless_alt)

text \<open>
  C10. The Stage-1-fixed variant keeps the business-logic flaws unchanged:
  \<open>apply_coupon_after_checkout\<close> and \<open>view_admin_report\<close> of the fixed variant
  return the same value and write the same output as those of the vulnerable variant,
  for every input.
\<close>

theorem fixed_preserves_business_logic_flaws:
  "fixed_apply_coupon_after_checkout paid coupon_applied
     = vuln_apply_coupon_after_checkout paid coupon_applied
   \<and> fixed_view_admin_report out is_admin = vuln_view_admin_report out is_admin"
  by (simp add: fixed_apply_coupon_after_checkout_def vuln_apply_coupon_after_checkout_def
      fixed_view_admin_report_def vuln_view_admin_report_def)

section \<open>Properties of the detection pipeline\<close>

subsection \<open>Retries\<close>

lemma attempt_from_exhausted:
  "(\<And>i. i \<le> n \<Longrightarrow> \<exists>e. client req (a + i) = ServiceError e) \<Longrightarrow>
   \<exists>e. attempt_from client req a n = Inl e"
proof (induction n arbitrary: a)
  case 0
  from "0.prems" [of 0] obtain e where "client req a = ServiceError e" by auto
  then show ?case by simp
next
  case (Suc n)
  from Suc.prems [of 0] obtain e where e: "client req a = ServiceError e" by auto
  have "\<exists>e. attempt_from client req (Suc a) n = Inl e"
  proof (rule Suc.IH)
    fix i assume "i \<le> n"
    then show "\<exists>e. client req (Suc a + i) = ServiceError e"
      using Suc.prems [of "Suc i"] by simp
  qed
  then show ?case using e by simp
qed

lemma attempt_from_Inl_D:
  "attempt_from client req a n = Inl e \<Longrightarrow> i \<le> n \<Longrightarrow> \<exists>e'. client req (a + i) = ServiceError e'"
proof (induction n arbitrary: a i)
  case 0
  then show ?case by (auto split: response.splits)
next
  case (Suc n)
  from Suc.prems(1) obtain e0 where e0: "client req a = ServiceError e0"
    and rest: "attempt_from client req (Suc a) n = Inl e"
    by (auto split: response.splits)
  show ?case
  proof (cases i)
    case 0
    then show ?thesis using e0 by simp
  next
    case (Suc j)
    then have "j \<le> n" using Suc.prems(2) by simp
    from Suc.IH [OF rest this] show ?thesis using Suc by simp
  qed
qed

lemma request_with_retries_exhausted:
  "(\<And>a. a \<le> max_retries \<Longrightarrow> \<exists>e. client req a = ServiceError e) \<Longrightarrow>
   isl (request_with_retries client max_retries req)"
  using attempt_from_exhausted [of max_retries client req 0]
  by (auto simp: request_with_retries_def)

lemma stage2_indeterminate:
  assumes "s \<in> set (su_snippets unit)"
    and "\<And>a. a \<le> max_retries \<Longrightarrow> \<exists>e. client (request_for prompt unit s) a = ServiceError e"
  shows "sr_verdict (stage2 client max_retries prompt unit) = Indeterminate"
proof -
  have "isl (request_with_retries client max_retries (request_for prompt unit s))"
    using assms(2) by (rule request_with_retries_exhausted)
  then have "list_ex isl (map (\<lambda>s. request_with_retries client max_retries (request_for prompt unit s))
                         (su_snippets unit))"
    using assms(1) by (auto simp: list_ex_iff)
  then show ?thesis by (simp add: stage2_def Let_def)
qed

lemma gate_reaches_done:
  "gr_state (gate_run_steps 4 m s1 s2 s3
     \<lparr>gr_state = READY, gr_stage1 = skipped_report, gr_stage2 = skipped_report,
      gr_stage3 = skipped_forecast\<rparr>) = DONE"
  by (cases m) (simp_all add: numeral_eq_Suc)

lemma orchestrate_well_formed:
  "orchestrate m s1 s2 s3 = Inr gd \<Longrightarrow> well_formed gd"
  by (auto simp: orchestrate_def Let_def well_formed_def split: if_splits)

lemma orchestrate_stage1_only:
  assumes "invariant_ok s1"
  shows "orchestrate Stage1Only s1 s2 s3 =
           Inr \<lparr>gd_stage1 = s1, gd_stage2 = skipped_report, gd_stage3 = skipped_forecast,
                gd_overall = overall_verdict [sr_verdict s1, Skipped, Skipped]\<rparr>"
  using assms
  by (simp add: orchestrate_def Let_def numeral_eq_Suc skipped_report_def skipped_forecast_def
      invariant_ok_def)

lemma orchestrate_stage1_blocks:
  assumes "invariant_ok s1" and "sr_verdict s1 = Block"
  shows "orchestrate Full s1 s2 s3 =
           Inr \<lparr>gd_stage1 = s1, gd_stage2 = skipped_report, gd_stage3 = skipped_forecast,
                gd_overall = Block\<rparr>"
  using assms
  by (simp add: orchestrate_def Let_def numeral_eq_Suc skipped_report_def skipped_forecast_def
      invariant_ok_def overall_verdict_def)

lemma orchestrate_full:
  assumes "invariant_ok s1" and "invariant_ok s2"
    and "sr_verdict s1 \<noteq> Block" and "sr_verdict s2 \<noteq> Block"
  shows "orchestrate Full s1 s2 s3 =
           Inr \<lparr>gd_stage1 = s1, gd_stage2 = s2, gd_stage3 = s3,
                gd_overall = overall_verdict [sr_verdict s1, sr_verdict s2, s3_verdict s3]\<rparr>"
  using assms by (simp add: orchestrate_def Let_def numeral_eq_Suc)

lemma orchestrate_stage2_only:
  assumes "invariant_ok s2"
  shows "orchestrate Stage2Only s1 s2 s3 =
           Inr \<lparr>gd_stage1 = skipped_report, gd_stage2 = s2, gd_stage3 = skipped_forecast,
                gd_overall = overall_verdict [Skipped, sr_verdict s2, Skipped]\<rparr>"
  using assms
  by (simp add: orchestrate_def Let_def numeral_eq_Suc skipped_report_def skipped_forecast_def
      invariant_ok_def)


subsection \<open>Merging\<close>



lemma set_merge_into: "set (merge_into f acc) \<subseteq> insert f (set acc)"
  by (induction acc) auto




lemma set_merge_findings: "set (merge_findings fs) \<subseteq> set fs"
proof (induction fs)
  case Nil
  then show ?case by simp
next
  case (Cons f fs)
  then show ?case using set_merge_into [of f "merge_findings fs"] by auto
qed


lemma find_Some_key: "find (\<lambda>g. finding_key g = k) xs = Some x \<Longrightarrow> x \<in> set xs \<and> finding_key x = k"
  by (auto simp: find_Some_iff)









subsection \<open>The Findings of Stage 1\<close>







lemma demo_stage1:
  "stage1 (su_path demo_unit) demo_rules demo_model demo_config
     [demo_coupon_snippet, demo_copy_snippet] =
   \<lparr>sr_findings =
      [\<lparr>f_id = 0, f_stage = 1, f_category = BufferOverflow, f_file = ''demo_vuln.c'',
        f_line_start = 73, f_line_end = 75, f_confidence = 9 / 10, f_severity = High,
        f_rationale = None\<rparr>,
       \<lparr>f_id = 1, f_stage = 1, f_category = Injection, f_file = ''demo_vuln.c'',
        f_line_start = 73, f_line_end = 75, f_confidence = 1 / 2, f_severity = Medium,
        f_rationale = None\<rparr>,
       \<lparr>f_id = 2, f_stage = 1, f_category = Injection, f_file = ''demo_vuln.c'',
        f_line_start = 141, f_line_end = 150, f_confidence = 1 / 2, f_severity = Medium,
        f_rationale = None\<rparr>],
    sr_verdict = Block\<rparr>"
  by (simp add: stage1_def analyze_def rule_matcher_def classifier_def
      demo_unit_def demo_rules_def demo_model_def demo_config_def demo_coupon_snippet_def
      demo_copy_snippet_def all_categories_def finding_key_def number_findings_def
      stage1_verdict_def Let_def)

lemma demo_stage2: "stage2 failing_client 2 prompt demo_unit = \<lparr>sr_findings = [], sr_verdict = Indeterminate\<rparr>"
  by (simp add: stage2_def demo_unit_def failing_client_def request_with_retries_def
      numeral_2_eq_2 number_findings_def)

text \<open>
  C6. Whenever the Reasoning Client fails on a Snippet of the unit at every attempt the
  bounded retries allow, the verdict of Stage 2 is \<open>indeterminate\<close>, and so never
  \<open>pass\<close>. On this non-fatal path (no confidence outside [0,1]) the orchestrator still
  produces a complete report: in \<open>full\<close> mode, when Stage 1 did not block, the report
  holds the Stage 1 report unchanged, the indeterminate Stage 2 report and the Stage 3
  report; in \<open>stage2_only\<close> mode it holds the indeterminate Stage 2 report, the other
  stages being marked skipped.
\<close>

theorem stage2_failure_is_indeterminate:
  assumes "s \<in> set (su_snippets unit)"
    and "\<forall>a \<le> max_retries. \<exists>e. client (request_for prompt unit s) a = ServiceError e"
  shows "sr_verdict (stage2 client max_retries prompt unit) = Indeterminate
       \<and> sr_verdict (stage2 client max_retries prompt unit) \<noteq> Pass
       \<and> (invariant_ok s1 \<and> invariant_ok (stage2 client max_retries prompt unit)
            \<and> sr_verdict s1 \<noteq> Block \<longrightarrow>
          (\<exists>gd. orchestrate Full s1 (stage2 client max_retries prompt unit) s3 = Inr gd
              \<and> well_formed gd
              \<and> gd_stage1 gd = s1
              \<and> gd_stage2 gd = stage2 client max_retries prompt unit
              \<and> sr_verdict (gd_stage2 gd) = Indeterminate
              \<and> gd_stage3 gd = s3))
       \<and> (invariant_ok (stage2 client max_retries prompt unit) \<longrightarrow>
          (\<exists>gd. orchestrate Stage2Only s1 (stage2 client max_retries prompt unit) s3 = Inr gd
              \<and> well_formed gd
              \<and> gd_stage1 gd = skipped_report
              \<and> gd_stage2 gd = stage2 client max_retries prompt unit
              \<and> sr_verdict (gd_stage2 gd) = Indeterminate
              \<and> gd_stage3 gd = skipped_forecast))"
proof -
  let ?s2 = "stage2 client max_retries prompt unit"
  have v: "sr_verdict ?s2 = Indeterminate"
    using assms by (intro stage2_indeterminate [of s]) auto
  have full: "\<exists>gd. orchestrate Full s1 ?s2 s3 = Inr gd \<and> well_formed gd \<and> gd_stage1 gd = s1
                \<and> gd_stage2 gd = ?s2 \<and> sr_verdict (gd_stage2 gd) = Indeterminate
                \<and> gd_stage3 gd = s3"
    if ok: "invariant_ok s1" "invariant_ok ?s2" and nb: "sr_verdict s1 \<noteq> Block"
  proof -
    have nb2: "sr_verdict ?s2 \<noteq> Block" using v by simp
    note run = orchestrate_full [OF ok nb nb2, of s3]
    show ?thesis using run orchestrate_well_formed [OF run] v by simp
  qed
  have only: "\<exists>gd. orchestrate Stage2Only s1 ?s2 s3 = Inr gd \<and> well_formed gd
                \<and> gd_stage1 gd = skipped_report \<and> gd_stage2 gd = ?s2
                \<and> sr_verdict (gd_stage2 gd) = Indeterminate
                \<and> gd_stage3 gd = skipped_forecast"
    if ok: "invariant_ok ?s2"
  proof -
    note run = orchestrate_stage2_only [OF ok, of s1 s3]
    show ?thesis using run orchestrate_well_formed [OF run] v by simp
  qed
  show ?thesis using v full only by simp
qed

theorem stage2_failure_is_indeterminate_witness:
  "demo_coupon_snippet \<in> set (su_snippets demo_unit)
   \<and> failing_client (request_for ''prompt'' demo_unit demo_coupon_snippet) 0
        = ServiceError Timeout
   \<and> failing_client (request_for ''prompt'' demo_unit demo_coupon_snippet) 1
        = ServiceError Timeout
   \<and> failing_client (request_for ''prompt'' demo_unit demo_coupon_snippet) 2
        = ServiceError Timeout
   \<and> invariant_ok demo_stage1_report
   \<and> invariant_ok (stage2 failing_client 2 ''prompt'' demo_unit)
   \<and> sr_verdict demo_stage1_report \<noteq> Block
   \<and> sr_verdict (stage2 failing_client 2 ''prompt'' demo_unit) = Indeterminate
   \<and> (\<exists>gd. orchestrate Full demo_stage1_report (stage2 failing_client 2 ''prompt'' demo_unit)
              demo_forecast = Inr gd
          \<and> well_formed gd
          \<and> gd_stage1 gd = demo_stage1_report
          \<and> gd_stage2 gd = \<lparr>sr_findings = [], sr_verdict = Indeterminate\<rparr>
          \<and> gd_stage3 gd = demo_forecast)
   \<and> (\<exists>gd. orchestrate Stage2Only demo_stage1_report
              (stage2 failing_client 2 ''prompt'' demo_unit) demo_forecast = Inr gd
          \<and> well_formed gd
          \<and> gd_stage1 gd = skipped_report
          \<and> gd_stage2 gd = \<lparr>sr_findings = [], sr_verdict = Indeterminate\<rparr>
          \<and> gd_stage3 gd = skipped_forecast)"
proof -
  have h1: "demo_coupon_snippet \<in> set (su_snippets demo_unit)"
    by (simp add: demo_unit_def)
  have c: "failing_client (request_for ''prompt'' demo_unit demo_coupon_snippet) a
             = ServiceError Timeout" for a
    by (simp add: failing_client_def)
  have h2: "\<forall>a \<le> 2. \<exists>e. failing_client (request_for ''prompt'' demo_unit demo_coupon_snippet) a
                      = ServiceError e"
    by (simp add: c)
  have h3: "invariant_ok demo_stage1_report"
    by (simp add: invariant_ok_def demo_stage1_report_def)
  have h4: "invariant_ok (stage2 failing_client 2 ''prompt'' demo_unit)"
    by (simp add: demo_stage2 invariant_ok_def)
  have h5: "sr_verdict demo_stage1_report \<noteq> Block"
    by (simp add: demo_stage1_report_def)
  note t = stage2_failure_is_indeterminate
      [where s = demo_coupon_snippet and unit = demo_unit and max_retries = 2
         and client = failing_client and prompt = "''prompt''"
         and ?s1.0 = demo_stage1_report and ?s3.0 = demo_forecast, OF h1 h2]
  from t have v: "sr_verdict (stage2 failing_client 2 ''prompt'' demo_unit) = Indeterminate"
    by (rule conjunct1)
  from t h3 h4 h5 have full:
    "\<exists>gd. orchestrate Full demo_stage1_report (stage2 failing_client 2 ''prompt'' demo_unit)
              demo_forecast = Inr gd
          \<and> well_formed gd
          \<and> gd_stage1 gd = demo_stage1_report
          \<and> gd_stage2 gd = stage2 failing_client 2 ''prompt'' demo_unit
          \<and> sr_verdict (gd_stage2 gd) = Indeterminate
          \<and> gd_stage3 gd = demo_forecast"
    by blast
  from t h4 have only:
    "\<exists>gd. orchestrate Stage2Only demo_stage1_report
              (stage2 failing_client 2 ''prompt'' demo_unit) demo_forecast = Inr gd
          \<and> well_formed gd
          \<and> gd_stage1 gd = skipped_report
          \<and> gd_stage2 gd = stage2 failing_client 2 ''prompt'' demo_unit
          \<and> sr_verdict (gd_stage2 gd) = Indeterminate
          \<and> gd_stage3 gd = skipped_forecast"
    by blast
  have s2: "stage2 failing_client 2 ''prompt'' demo_unit
              = \<lparr>sr_findings = [], sr_verdict = Indeterminate\<rparr>"
    by (rule demo_stage2)
  from full obtain gd where gd:
    "orchestrate Full demo_stage1_report (stage2 failing_client 2 ''prompt'' demo_unit)
       demo_forecast = Inr gd"
    "well_formed gd" "gd_stage1 gd = demo_stage1_report"
    "gd_stage2 gd = stage2 failing_client 2 ''prompt'' demo_unit"
    "gd_stage3 gd = demo_forecast"
    by blast
  from only obtain gd' where gd':
    "orchestrate Stage2Only demo_stage1_report
       (stage2 failing_client 2 ''prompt'' demo_unit) demo_forecast = Inr gd'"
    "well_formed gd'" "gd_stage1 gd' = skipped_report"
    "gd_stage2 gd' = stage2 failing_client 2 ''prompt'' demo_unit"
    "gd_stage3 gd' = skipped_forecast"
    by blast
  have "gd_stage2 gd = \<lparr>sr_findings = [], sr_verdict = Indeterminate\<rparr>"
    using gd(4) s2 by simp
  moreover have "gd_stage2 gd' = \<lparr>sr_findings = [], sr_verdict = Indeterminate\<rparr>"
    using gd'(4) s2 by simp
  ultimately show ?thesis
    using h1 c [of 0] c [of 1] c [of 2] h3 h4 h5 v gd(1,2,3,5) gd'(1,2,3,5) by blast
qed



end
